theory Spec2Isabelle
  imports Complex_Main "HOL-Library.Sublist"
begin

section \<open>Strings\<close>

text \<open>
  A JavaScript string is modelled as a \<^typ>\<open>string\<close>: a list of code units, each below
  256 (U+0000 ... U+00FF).  On these code units \<open>trim\<close> and \<open>toLowerCase\<close> act
  character by character, which is what the definitions below write out.
\<close>

definition isWhiteSpace :: "char \<Rightarrow> bool" where
  \<comment> \<open>WhiteSpace and LineTerminator of ECMAScript below U+0100:
      TAB, LF, VT, FF, CR, SP and NBSP.\<close>
  "isWhiteSpace c = ((of_char c :: nat) \<in> {9, 10, 11, 12, 13, 32, 160})"

definition trim :: "string \<Rightarrow> string" where
  \<comment> \<open>\<open>String.prototype.trim\<close>: white space is removed from both ends.\<close>
  "trim s = rev (dropWhile isWhiteSpace (rev (dropWhile isWhiteSpace s)))"

section \<open>Curiosity engine (curiosity-engine.tsx)\<close>

text \<open>
  \<^verbatim>\<open>useState<Array<{ id: number; text: string; answered?: boolean; answer?: string }>>\<close>:
  the two optional fields are options, \<open>None\<close> when the property is absent.
\<close>

record question =
  q_id :: int
  q_text :: string
  q_answered :: "bool option"
  q_answer :: "string option"

record curiosity =
  questions :: "question list"
  currentAnswer :: string

definition submitAnswer :: "int \<Rightarrow> curiosity \<Rightarrow> curiosity" where
  \<comment> \<open>\<open>if (!currentAnswer.trim()) return\<close>: the empty string is falsy.  Otherwise the
      list is mapped and the input box is cleared.\<close>
  "submitAnswer i st =
     (if trim (currentAnswer st) = [] then st
      else st\<lparr>questions :=
                  map (\<lambda>q. if q_id q = i
                           then q\<lparr>q_answered := Some True, q_answer := Some (currentAnswer st)\<rparr>
                           else q)
                      (questions st),
              currentAnswer := []\<rparr>)"

section \<open>Calendar dates (the \<open>Date\<close> values of calendar-view and library page)\<close>

text \<open>
  A \<open>Date\<close> is modelled by its local calendar fields: \<open>getFullYear\<close>, \<open>getMonth\<close>
  (0 = January) and \<open>getDate\<close>; the time of day plays no part in the code below.
  \<open>new Date(y, m, d)\<close> is \<^verbatim>\<open>newDate\<close>: a year argument 0..99 is read as 1900..1999
  (the constructor's legacy rule), months outside 0..11 carry into the year and days
  outside the month carry into the neighbouring months, as ECMAScript's MakeDay does in
  the proleptic Gregorian calendar.  The model is of dates whose time value is in
  range (about 273000 years either side of 1970), in a time zone that skips no civil
  day among them: a \<open>Date\<close> out of range is an Invalid Date, and a zone that has
  moved across the date line lacks a day.  The dates evaluated below, of December 1949
  to February 1950, are in range and no zone skips a day there.
\<close>

record date =
  fullYear :: int
  monthIx :: int
  dayOfMonth :: int

definition isLeap :: "int \<Rightarrow> bool" where
  "isLeap y = ((y mod 4 = 0 \<and> y mod 100 \<noteq> 0) \<or> y mod 400 = 0)"

definition daysInMonth :: "int \<Rightarrow> int \<Rightarrow> int" where
  "daysInMonth y m =
     (if m = 1 then (if isLeap y then 29 else 28)
      else if m = 3 \<or> m = 5 \<or> m = 8 \<or> m = 10 then 30 else 31)"

lemma daysInMonth_bounds: "28 \<le> daysInMonth y m" "daysInMonth y m \<le> 31"
  by (simp_all add: daysInMonth_def)

function normDay :: "int \<Rightarrow> int \<Rightarrow> int \<Rightarrow> date" where
  "normDay y m d =
     (if d < 1 then
        normDay (if m = 0 then y - 1 else y) (if m = 0 then 11 else m - 1)
                (d + daysInMonth (if m = 0 then y - 1 else y) (if m = 0 then 11 else m - 1))
      else if daysInMonth y m < d then
        normDay (if m = 11 then y + 1 else y) (if m = 11 then 0 else m + 1)
                (d - daysInMonth y m)
      else \<lparr>fullYear = y, monthIx = m, dayOfMonth = d\<rparr>)"
  by pat_completeness auto
termination
proof (relation "measure (\<lambda>(y, m, d). if d < 1 then nat (32 - d) else nat d)", goal_cases)
  case 1
  show ?case by simp
next
  case (2 y m d)
  have "28 \<le> daysInMonth (if m = 0 then y - 1 else y) (if m = 0 then 11 else m - 1)"
       "daysInMonth (if m = 0 then y - 1 else y) (if m = 0 then 11 else m - 1) \<le> 31"
    by (rule daysInMonth_bounds)+
  with 2 show ?case by auto
next
  case (3 y m d)
  have "28 \<le> daysInMonth y m" by (rule daysInMonth_bounds)
  with 3 show ?case by auto
qed

declare normDay.simps [simp del]

definition constructorYear :: "int \<Rightarrow> int" where
  \<comment> \<open>the Date constructor: a year argument from 0 to 99 stands for 1900 + y\<close>
  "constructorYear y = (if 0 \<le> y \<and> y \<le> 99 then 1900 + y else y)"

definition newDate :: "int \<Rightarrow> int \<Rightarrow> int \<Rightarrow> date" where
  "newDate y m d = normDay (constructorYear y + m div 12) (m mod 12) d"

definition dayNumber :: "date \<Rightarrow> int" where
  "dayNumber t =
     (let y1 = (if monthIx t \<le> 1 then fullYear t - 1 else fullYear t);
          era = y1 div 400;
          yoe = y1 mod 400;
          mp = (monthIx t + 10) mod 12;
          doy = (153 * mp + 2) div 5 + dayOfMonth t - 1;
          doe = yoe * 365 + yoe div 4 - yoe div 100 + doy
      in era * 146097 + doe - 719468)"

definition getDay :: "date \<Rightarrow> int" where
  "getDay t = (dayNumber t + 4) mod 7"

definition generateCalendarDays :: "date \<Rightarrow> date list" where
  "generateCalendarDays month =
     (let year = fullYear month;
          monthIndex = monthIx month;
          firstDay = newDate year monthIndex 1;
          lastDay = newDate year (monthIndex + 1) 0;
          firstDayOfWeek = getDay firstDay;
          daysFromPrevMonth = firstDayOfWeek;
          totalDays = 42;
          prevMonth = newDate year monthIndex 0;
          prevMonthLastDay = dayOfMonth prevMonth;
          days1 = map (\<lambda>i. newDate year (monthIndex - 1) i)
                      [prevMonthLastDay - daysFromPrevMonth + 1 .. prevMonthLastDay];
          currentMonthDays = dayOfMonth lastDay;
          days2 = days1 @ map (\<lambda>i. newDate year monthIndex i) [1 .. currentMonthDays];
          remainingDays = totalDays - int (length days2);
          days3 = days2 @ map (\<lambda>i. newDate year (monthIndex + 1) i) [1 .. remainingDays]
      in days3)"

text \<open>The same function as it stands a second time, in the library page.\<close>

definition generateCalendarDays_library :: "date \<Rightarrow> date list" where
  "generateCalendarDays_library month =
     (let year = fullYear month;
          monthIndex = monthIx month;
          firstDay = newDate year monthIndex 1;
          lastDay = newDate year (monthIndex + 1) 0;
          firstDayOfWeek = getDay firstDay;
          daysFromPrevMonth = firstDayOfWeek;
          totalDays = 42;
          prevMonth = newDate year monthIndex 0;
          prevMonthLastDay = dayOfMonth prevMonth;
          days1 = map (\<lambda>i. newDate year (monthIndex - 1) i)
                      [prevMonthLastDay - daysFromPrevMonth + 1 .. prevMonthLastDay];
          currentMonthDays = dayOfMonth lastDay;
          days2 = days1 @ map (\<lambda>i. newDate year monthIndex i) [1 .. currentMonthDays];
          remainingDays = totalDays - int (length days2);
          days3 = days2 @ map (\<lambda>i. newDate year (monthIndex + 1) i) [1 .. remainingDays]
      in days3)"

text \<open>The months next to month \<open>m\<close> of year \<open>y\<close>, and the dates a \<open>Date\<close> can hold.\<close>

definition prevYear :: "int \<Rightarrow> int \<Rightarrow> int" where
  "prevYear y m = (if m = 0 then y - 1 else y)"
definition prevMonthIx :: "int \<Rightarrow> int" where
  "prevMonthIx m = (if m = 0 then 11 else m - 1)"
definition nextYear :: "int \<Rightarrow> int \<Rightarrow> int" where
  "nextYear y m = (if m = 11 then y + 1 else y)"
definition nextMonthIx :: "int \<Rightarrow> int" where
  "nextMonthIx m = (if m = 11 then 0 else m + 1)"

definition valid_date :: "date \<Rightarrow> bool" where
  "valid_date t = (0 \<le> monthIx t \<and> monthIx t \<le> 11 \<and>
                   1 \<le> dayOfMonth t \<and> dayOfMonth t \<le> daysInMonth (fullYear t) (monthIx t))"

definition daysOf :: "int \<Rightarrow> int \<Rightarrow> int \<Rightarrow> int \<Rightarrow> date list" where
  \<comment> \<open>the days \<open>a, a + 1, ..., b\<close> of month \<open>m\<close> of year \<open>y\<close>, ascending\<close>
  "daysOf y m a b = map (\<lambda>i. \<lparr>fullYear = y, monthIx = m, dayOfMonth = i\<rparr>) [a .. b]"

section \<open>Library file list (FileListView)\<close>

definition toLowerChar :: "char \<Rightarrow> char" where
  "toLowerChar c =
     (let n = (of_char c :: nat)
      in if (65 \<le> n \<and> n \<le> 90) \<or> (192 \<le> n \<and> n \<le> 222 \<and> n \<noteq> 215)
         then char_of (n + 32) else c)"

definition toLowerCase :: "string \<Rightarrow> string" where
  "toLowerCase s = map toLowerChar s"

fun str_includes :: "string \<Rightarrow> string \<Rightarrow> bool" where
  "str_includes [] t = (t = [])"
| "str_includes (c # s) t = (prefix t (c # s) \<or> str_includes s t)"

fun str_split :: "char \<Rightarrow> string \<Rightarrow> string list" where
  "str_split sep [] = [[]]"
| "str_split sep (c # s) =
     (if c = sep then [] # str_split sep s
      else (c # hd (str_split sep s)) # tl (str_split sep s))"

definition startsWith :: "string \<Rightarrow> string \<Rightarrow> bool" where
  "startsWith s t = prefix t s"

record recording =
  rec_id :: string
  title :: string
  rec_date :: date
  duration :: string
  hasTranscript :: bool
  hasFullTranscript :: bool
  hasAnalysis :: bool

definition keepRecording :: "string \<Rightarrow> recording \<Rightarrow> bool" where
  "keepRecording searchQuery recording =
     (if searchQuery = [] then True
      else if str_includes searchQuery ''*'' then
        (let exactTerms = filter (\<lambda>t. t \<noteq> []) (str_split (CHR ''*'') searchQuery)
         in list_all (\<lambda>t. str_includes (title recording) t) exactTerms)
      else if str_includes searchQuery ''-'' then
        (let terms = str_split (CHR '' '') searchQuery;
             includedTerms = filter (\<lambda>t. \<not> startsWith t ''-'') terms;
             excludedTerms = map (drop 1) (filter (\<lambda>t. startsWith t ''-'') terms);
             includeMatch =
               (length includedTerms = 0 \<or>
                list_ex (\<lambda>t. str_includes (toLowerCase (title recording)) (toLowerCase t))
                        includedTerms);
             excludeMatch =
               list_ex (\<lambda>t. str_includes (toLowerCase (title recording)) (toLowerCase t))
                       excludedTerms
         in includeMatch \<and> \<not> excludeMatch)
      else str_includes (toLowerCase (title recording)) (toLowerCase searchQuery))"

definition filteredRecordings :: "string \<Rightarrow> recording list \<Rightarrow> recording list" where
  "filteredRecordings searchQuery recordings = filter (keepRecording searchQuery) recordings"

text \<open>\<open>Array.prototype.join\<close> with a one-character separator, to say what \<open>str_split\<close> returns.\<close>

fun join_on :: "char \<Rightarrow> string list \<Rightarrow> string" where
  "join_on sep [] = []"
| "join_on sep [x] = x"
| "join_on sep (x # y # ys) = x @ sep # join_on sep (y # ys)"

definition teamMeeting :: recording where
  "teamMeeting = \<lparr>rec_id = ''1'', title = ''Weekly Team Meeting'',
          rec_date = \<lparr>fullYear = 2025, monthIx = 2, dayOfMonth = 3\<rparr>, duration = ''45:12'',
          hasTranscript = True, hasFullTranscript = True, hasAnalysis = True\<rparr>"

section \<open>Live transcript (live-transcript.tsx)\<close>

text \<open>
  The component keeps one piece of state, \<open>transcript\<close>.  Its effect depends on the
  \<open>isRecording\<close> prop: when the prop changes the clean-up clears the interval of the
  previous run, and when the new value is true a new interval starts with
  \<open>currentIndex = 0\<close>.  Each firing of the interval hands \<open>setTranscript\<close> an updater
  and then increments \<open>currentIndex\<close>, or clears the interval when the texts are used
  up.  \<open>lt_interval\<close> is the live interval with its \<open>currentIndex\<close>; the list of texts is
  a parameter of the model and \<open>demoTexts\<close> is the list in the source.

  The updater reads \<open>demoTexts[currentIndex]\<close> when React calls it, not when it is
  made.  React calls it inside \<open>setTranscript\<close> only when it has no update pending for
  the component, as at the first firing of a run; otherwise it calls it when it next
  renders, which is after \<open>currentIndex++\<close>, so the text read is the one a position
  further on, and past the end of the array it is \<open>undefined\<close>, which \<open>+\<close> turns into
  the word.  \<open>IntervalFires atOnce\<close> is a firing, with whether React calls the updater
  at once.
\<close>

definition demoTexts :: "string list" where
  "demoTexts =
     [''Hello and welcome to our weekly team meeting.'',
      ''Today we'll be discussing the Q1 results and our plans for Q2.'',
      ''Let's start by reviewing our key metrics from the last quarter.'',
      ''Revenue grew by 15% compared to the previous quarter, which exceeded our target of 12%.'',
      ''Customer acquisition cost decreased by 8%, which is a positive trend.'',
      ''Our user retention rate remained stable at 85%, but we're aiming to improve this to 90% in Q2.'']"

text \<open>The updater \<^verbatim>\<open>(prev) => prev + (prev ? " " : "") + text\<close>; the empty string is falsy.\<close>

definition appendText :: "string \<Rightarrow> string \<Rightarrow> string" where
  "appendText prev text = prev @ (if prev \<noteq> [] then '' '' else []) @ text"

record liveTranscript =
  lt_isRecording :: bool
  transcript :: string
  lt_interval :: "nat option"

datatype lt_event = Render bool | IntervalFires bool

definition lt_mount :: "bool \<Rightarrow> liveTranscript" where
  "lt_mount isRecording =
     \<lparr>lt_isRecording = isRecording, transcript = [],
      lt_interval = (if \<not> isRecording then None else Some 0)\<rparr>"

definition lt_render :: "bool \<Rightarrow> liveTranscript \<Rightarrow> liveTranscript" where
  "lt_render isRecording st =
     (if isRecording = lt_isRecording st then st
      else st\<lparr>lt_isRecording := isRecording,
              lt_interval := (if \<not> isRecording then None else Some 0)\<rparr>)"

text \<open>\<open>demoTexts[i]\<close> inside a string concatenation.\<close>

definition readText :: "string list \<Rightarrow> nat \<Rightarrow> string" where
  "readText texts i = (if i < length texts then texts ! i else ''undefined'')"

definition lt_tick :: "string list \<Rightarrow> bool \<Rightarrow> liveTranscript \<Rightarrow> liveTranscript" where
  "lt_tick texts atOnce st =
     (case lt_interval st of
        None \<Rightarrow> st
      | Some currentIndex \<Rightarrow>
          if currentIndex < length texts
          then st\<lparr>transcript :=
                    appendText (transcript st)
                      (readText texts (if atOnce then currentIndex else currentIndex + 1)),
                  lt_interval := Some (currentIndex + 1)\<rparr>
          else st\<lparr>lt_interval := None\<rparr>)"

fun lt_step :: "string list \<Rightarrow> liveTranscript \<Rightarrow> lt_event \<Rightarrow> liveTranscript" where
  "lt_step texts st (Render isRecording) = lt_render isRecording st"
| "lt_step texts st (IntervalFires atOnce) = lt_tick texts atOnce st"

definition lt_run :: "string list \<Rightarrow> liveTranscript \<Rightarrow> lt_event list \<Rightarrow> liveTranscript" where
  "lt_run texts st evs = foldl (lt_step texts) st evs"

section \<open>Record page: the recorder and its chunk list (RecordPage)\<close>

text \<open>
  \<open>audioChunksRef\<close> is the only buffer between the \<open>MediaRecorder\<close> and the rest of the
  page.  \<open>startRecording\<close> makes a new recorder, empties the list, installs
  \<open>ondataavailable\<close>, which pushes the blob it is handed, and calls \<open>start()\<close> with no
  timeslice; nothing calls \<open>requestData\<close>.  Such a recorder gathers the audio it
  captures while its state is \<open>recording\<close> and hands it over once, as one blob, when it
  is stopped: \<open>stop()\<close> makes the recorder inactive and queues a task that fires
  \<open>dataavailable\<close> with everything gathered and then \<open>stop\<close>.  \<open>stopRecording\<close> calls
  \<open>stop()\<close> and then installs \<open>onstop\<close>, which builds the final \<open>Blob\<close> from the list
  and only logs it, so the handler is in place when the queued task runs.  On a
  recorder that is already inactive \<open>stop()\<close> fires nothing.

  A \<open>Blob\<close> is modelled by the list of the audio frames in it, and \<open>new Blob(parts)\<close> by
  the concatenation of the parts.  \<open>StartRecording granted\<close> is a click on Record, with
  whether \<open>getUserMedia\<close> resolved (a rejection is caught and only logged); \<open>Frame f\<close>
  is the microphone delivering the frame \<open>f\<close>; \<open>StopRecording\<close> is a click on Stop
  together with the task the recorder queues.  A recorder replaced by a later
  \<open>startRecording\<close> is never stopped and so never fires; it is dropped from the state.
  The timer and the three simulations started by \<open>startRecording\<close> do not touch the
  recorder or the chunk list and are left out.
\<close>

datatype recorderState = Inactive | Recording | Paused

record 'f recorder =
  rec_state :: recorderState
  gathered :: "'f list"
  onstop_set :: bool

record 'f recordPage =
  rp_isRecording :: bool
  rp_isPaused :: bool
  mediaRecorder :: "'f recorder option"
  audioChunks :: "'f list list"
  audioBlob :: "'f list option"

datatype 'f rp_event =
    StartRecording bool
  | Frame 'f
  | PauseRecording
  | ResumeRecording
  | StopRecording

definition rp_init :: "'f recordPage" where
  "rp_init = \<lparr>rp_isRecording = False, rp_isPaused = False, mediaRecorder = None,
              audioChunks = [], audioBlob = None\<rparr>"

definition startRecording :: "bool \<Rightarrow> 'f recordPage \<Rightarrow> 'f recordPage" where
  "startRecording granted st =
     (if \<not> granted then st
      else st\<lparr>mediaRecorder := Some \<lparr>rec_state = Recording, gathered = [], onstop_set = False\<rparr>,
              audioChunks := [],
              rp_isRecording := True, rp_isPaused := False\<rparr>)"

text \<open>The recorder gathers a frame only while its state is \<open>recording\<close>.\<close>

definition frame :: "'f \<Rightarrow> 'f recordPage \<Rightarrow> 'f recordPage" where
  "frame f st =
     (case mediaRecorder st of
        None \<Rightarrow> st
      | Some r \<Rightarrow>
          if rec_state r = Recording
          then st\<lparr>mediaRecorder := Some (r\<lparr>gathered := gathered r @ [f]\<rparr>)\<rparr>
          else st)"

definition ondataavailable :: "'f list \<Rightarrow> 'f recordPage \<Rightarrow> 'f recordPage" where
  "ondataavailable blob st = st\<lparr>audioChunks := audioChunks st @ [blob]\<rparr>"

definition onstop :: "'f recordPage \<Rightarrow> 'f recordPage" where
  "onstop st =
     st\<lparr>audioBlob := Some (concat (audioChunks st)), rp_isRecording := False,
        rp_isPaused := False\<rparr>"

definition pauseRecording :: "'f recordPage \<Rightarrow> 'f recordPage" where
  "pauseRecording st =
     (case mediaRecorder st of
        None \<Rightarrow> st
      | Some r \<Rightarrow>
          if rec_state r = Recording
          then st\<lparr>mediaRecorder := Some (r\<lparr>rec_state := Paused\<rparr>), rp_isPaused := True\<rparr>
          else st)"

definition resumeRecording :: "'f recordPage \<Rightarrow> 'f recordPage" where
  "resumeRecording st =
     (case mediaRecorder st of
        None \<Rightarrow> st
      | Some r \<Rightarrow>
          if rec_state r = Paused
          then st\<lparr>mediaRecorder := Some (r\<lparr>rec_state := Recording\<rparr>), rp_isPaused := False\<rparr>
          else st)"

text \<open>
  \<open>stop()\<close>, the assignment of \<open>onstop\<close>, and then the queued task: \<open>dataavailable\<close> with
  the one blob of the recording, and \<open>stop\<close>.
\<close>

definition stopRecording :: "'f recordPage \<Rightarrow> 'f recordPage" where
  "stopRecording st =
     (case mediaRecorder st of
        None \<Rightarrow> st
      | Some r \<Rightarrow>
          if rec_state r = Inactive
          then st\<lparr>mediaRecorder := Some (r\<lparr>onstop_set := True\<rparr>)\<rparr>
          else onstop (ondataavailable (gathered r)
                 (st\<lparr>mediaRecorder :=
                       Some \<lparr>rec_state = Inactive, gathered = [], onstop_set = True\<rparr>\<rparr>)))"

fun rp_step :: "'f recordPage \<Rightarrow> 'f rp_event \<Rightarrow> 'f recordPage" where
  "rp_step st (StartRecording granted) = startRecording granted st"
| "rp_step st (Frame f) = frame f st"
| "rp_step st PauseRecording = pauseRecording st"
| "rp_step st ResumeRecording = resumeRecording st"
| "rp_step st StopRecording = stopRecording st"

definition rp_run :: "'f recordPage \<Rightarrow> 'f rp_event list \<Rightarrow> 'f recordPage" where
  "rp_run st evs = foldl rp_step st evs"

text \<open>
  What a trace says by itself, without the page: the frames delivered while the
  recording was not paused, and whether it is paused at the end.
\<close>

fun recorded :: "bool \<Rightarrow> 'f rp_event list \<Rightarrow> 'f list" where
  "recorded paused [] = []"
| "recorded paused (Frame f # evs) =
     (if paused then recorded paused evs else f # recorded paused evs)"
| "recorded paused (PauseRecording # evs) = recorded True evs"
| "recorded paused (ResumeRecording # evs) = recorded False evs"
| "recorded paused (_ # evs) = recorded paused evs"

fun pausedAfter :: "bool \<Rightarrow> 'f rp_event list \<Rightarrow> bool" where
  "pausedAfter paused [] = paused"
| "pausedAfter paused (PauseRecording # evs) = pausedAfter True evs"
| "pausedAfter paused (ResumeRecording # evs) = pausedAfter False evs"
| "pausedAfter paused (_ # evs) = pausedAfter paused evs"

text \<open>An event that neither starts a recording nor stops one.\<close>

definition quiet :: "'f rp_event \<Rightarrow> bool" where
  "quiet ev = (ev \<noteq> StartRecording True \<and> ev \<noteq> StopRecording)"

text \<open>A recorder at work, and the page when a recording holding \<open>fs\<close> has been stopped.\<close>

definition running :: "bool \<Rightarrow> 'f list \<Rightarrow> 'f recorder" where
  "running p g =
     \<lparr>rec_state = (if p then Paused else Recording), gathered = g, onstop_set = False\<rparr>"

definition stopped :: "'f list \<Rightarrow> 'f recordPage" where
  "stopped fs =
     \<lparr>rp_isRecording = False, rp_isPaused = False,
      mediaRecorder = Some \<lparr>rec_state = Inactive, gathered = [], onstop_set = True\<rparr>,
      audioChunks = [fs], audioBlob = Some fs\<rparr>"

section \<open>Trigger detector\<close>

text \<open>
  Modelled from the spec: the trigger detector of the transcription manager is not among
  the sources.  Section 4.4 of the specification: \<open>scan\<close> runs the configured phrases,
  compared without regard to letter case, against the newly finalized text only and
  emits a TriggerEvent, with the offset in the transcript, for every match, in the order
  the matches appear in the text; overlapping matches all fire.  \<open>base\<close> is the offset
  of the new segment in the transcript, and a \<open>trigger_id\<close> is the position of the
  phrase in the configuration.
\<close>

record triggerEvent =
  trigger_id :: nat
  matched_phrase :: string
  transcript_offset :: nat

definition matches_at :: "string \<Rightarrow> string \<Rightarrow> nat \<Rightarrow> bool" where
  \<comment> \<open>Modelled from the spec: the TriggerDetector's matcher is missing; a phrase matches at
      offset \<open>i\<close> when the text from \<open>i\<close> on starts with it, letter case aside.\<close>
  "matches_at phrase text i = prefix (toLowerCase phrase) (toLowerCase (drop i text))"

definition scan :: "string list \<Rightarrow> nat \<Rightarrow> string \<Rightarrow> triggerEvent list" where
  \<comment> \<open>Modelled from the spec: \<open>TriggerDetector.scan\<close> is missing; every offset of the new
      text in ascending order, and at each offset every configured phrase.\<close>
  "scan phrases base text =
     map (\<lambda>(i, k). \<lparr>trigger_id = k, matched_phrase = phrases ! k, transcript_offset = base + i\<rparr>)
         (filter (\<lambda>(i, k). matches_at (phrases ! k) text i)
                 (List.product [0 ..< length text] [0 ..< length phrases]))"

section \<open>Transcription link: connecting and reconnecting\<close>

text \<open>
  Modelled from the spec: the transcription service with its reconnection is not among
  the sources.  Section 4.2 of the specification: \<open>connect()\<close> takes the link from
  \<open>Disconnected\<close> through \<open>Connecting\<close> to \<open>Streaming\<close>, or back to \<open>Disconnected\<close> with a
  \<open>ConnectionError\<close>.  A transport failure while streaming starts a run of reconnection
  attempts with the count of failures at nought; every failed attempt is followed by a
  delay of exponential backoff (base 1 s, factor 2, cap 30 s, jitter within 20 per
  cent either way); a successful attempt returns the link to \<open>Streaming\<close>; the tenth
  failure in a row closes the link and surfaces \<open>LinkLost\<close>.  Delays are in seconds, as
  rationals.  The failure event carries the random number drawn for the jitter, and
  the link itself keeps the jitter within its bound.  \<open>delays\<close> lists the delays
  scheduled and \<open>surfaced\<close> the errors handed to the session owner, oldest first.
\<close>

datatype connectionState = Disconnected | Connecting | Streaming | Reconnecting | Closed

datatype linkError = ConnectionError | LinkLost

record link =
  conn :: connectionState
  failures :: nat
  delays :: "rat list"
  surfaced :: "linkError list"

text \<open>Modelled from the spec: the backoff parameters the specification names.\<close>

definition backoffBase :: rat where
  "backoffBase = 1"

definition backoffFactor :: rat where
  "backoffFactor = 2"

definition backoffCap :: rat where
  "backoffCap = 30"

definition jitterBound :: rat where
  "jitterBound = 1 / 5"

definition maxAttempts :: nat where
  "maxAttempts = 10"

definition nominalDelay :: "nat \<Rightarrow> rat" where
  \<comment> \<open>Modelled from the spec: the TranscriptionLink's backoff is missing; the delay after
      failure number \<open>n + 1\<close>, before jitter.\<close>
  "nominalDelay n = min backoffCap (backoffBase * backoffFactor ^ n)"

definition jitterOf :: "rat \<Rightarrow> rat" where
  \<comment> \<open>Modelled from the spec: the jitter the missing link makes of the number \<open>u\<close> it
      has drawn, kept within the bound.\<close>
  "jitterOf u = max (- jitterBound) (min jitterBound u)"

datatype linkEvent =
    Connect
  | ConnectSucceeded
  | ConnectFailed
  | TransportFailure
  | ReconnectFailed rat
  | ReconnectSucceeded
  | Close

definition link_init :: link where
  \<comment> \<open>Modelled from the spec: the missing link before \<open>connect()\<close>.\<close>
  "link_init = \<lparr>conn = Disconnected, failures = 0, delays = [], surfaced = []\<rparr>"

fun link_step :: "link \<Rightarrow> linkEvent \<Rightarrow> link" where
  \<comment> \<open>Modelled from the spec: the TranscriptionLink's state machine is missing.\<close>
  "link_step l Connect =
     (if conn l = Disconnected then l\<lparr>conn := Connecting\<rparr> else l)"
| "link_step l ConnectSucceeded =
     (if conn l = Connecting then l\<lparr>conn := Streaming, failures := 0\<rparr> else l)"
| "link_step l ConnectFailed =
     (if conn l = Connecting
      then l\<lparr>conn := Disconnected, surfaced := surfaced l @ [ConnectionError]\<rparr> else l)"
| "link_step l TransportFailure =
     (if conn l = Streaming then l\<lparr>conn := Reconnecting, failures := 0\<rparr> else l)"
| "link_step l (ReconnectFailed u) =
     (if conn l = Reconnecting then
        (if failures l + 1 \<ge> maxAttempts
         then l\<lparr>conn := Closed, failures := failures l + 1, surfaced := surfaced l @ [LinkLost]\<rparr>
         else l\<lparr>failures := failures l + 1,
                delays := delays l @ [nominalDelay (failures l) * (1 + jitterOf u)]\<rparr>)
      else l)"
| "link_step l ReconnectSucceeded =
     (if conn l = Reconnecting then l\<lparr>conn := Streaming, failures := 0\<rparr> else l)"
| "link_step l Close = l\<lparr>conn := Closed\<rparr>"

definition link_run :: "link \<Rightarrow> linkEvent list \<Rightarrow> link" where
  \<comment> \<open>Modelled from the spec: the link, which is missing, taken through a list of events.\<close>
  "link_run l evs = foldl link_step l evs"

definition link_inv :: "link \<Rightarrow> bool" where
  \<comment> \<open>Modelled from the spec: of the states the missing link reaches, only a closed one
      has surfaced \<open>LinkLost\<close>.\<close>
  "link_inv l = (conn l = Closed \<or> LinkLost \<notin> set (surfaced l))"

section \<open>Analysis scheduler\<close>


datatype resultStatus = Ok | Failed | Superseded












section \<open>Properties of the curiosity engine\<close>

lemma trim_Nil_iff: "trim s = [] \<longleftrightarrow> (\<forall>c \<in> set s. isWhiteSpace c)"
proof -
  have "trim s = [] \<longleftrightarrow> dropWhile isWhiteSpace (rev (dropWhile isWhiteSpace s)) = []"
    by (simp add: trim_def)
  also have "\<dots> \<longleftrightarrow> (\<forall>c \<in> set (dropWhile isWhiteSpace s). isWhiteSpace c)"
    by (simp add: dropWhile_eq_Nil_conv)
  also have "\<dots> \<longleftrightarrow> (\<forall>c \<in> set s. isWhiteSpace c)"
  proof
    assume a: "\<forall>c \<in> set (dropWhile isWhiteSpace s). isWhiteSpace c"
    have "dropWhile isWhiteSpace s = []"
    proof (rule ccontr)
      assume "dropWhile isWhiteSpace s \<noteq> []"
      then have "\<not> isWhiteSpace (hd (dropWhile isWhiteSpace s))"
        and "hd (dropWhile isWhiteSpace s) \<in> set (dropWhile isWhiteSpace s)"
        by (simp_all add: hd_dropWhile)
      with a show False by blast
    qed
    then show "\<forall>c \<in> set s. isWhiteSpace c"
      by (simp add: dropWhile_eq_Nil_conv)
  next
    assume "\<forall>c \<in> set s. isWhiteSpace c"
    then show "\<forall>c \<in> set (dropWhile isWhiteSpace s). isWhiteSpace c"
      using set_dropWhileD by fastforce
  qed
  finally show ?thesis .
qed

text \<open>
  C9.  With a current answer made of white space only (the empty answer included),
  \<open>submitAnswer\<close> changes nothing.  With any other answer the list keeps its length and
  order, every question whose id is the argument gets \<open>answered = true\<close> and the answer
  as typed, and every other question is the same record as before.
\<close>

theorem submitAnswer_frame:
  "((\<forall>c \<in> set (currentAnswer st). isWhiteSpace c) \<longrightarrow> submitAnswer i st = st) \<and>
   (\<not> (\<forall>c \<in> set (currentAnswer st). isWhiteSpace c) \<longrightarrow>
      length (questions (submitAnswer i st)) = length (questions st) \<and>
      (\<forall>k < length (questions st).
         questions (submitAnswer i st) ! k =
           (if q_id (questions st ! k) = i
            then (questions st ! k)\<lparr>q_answered := Some True,
                                     q_answer := Some (currentAnswer st)\<rparr>
            else questions st ! k)))"
  by (simp add: submitAnswer_def trim_Nil_iff)

theorem submitAnswer_frame_witness:
  "submitAnswer 2 \<lparr>questions = [\<lparr>q_id = 1, q_text = ''Who?'', q_answered = None, q_answer = None\<rparr>,
                               \<lparr>q_id = 2, q_text = ''When?'', q_answered = None, q_answer = None\<rparr>],
                  currentAnswer = [CHR '' '', CHR 0x09]\<rparr>
     = \<lparr>questions = [\<lparr>q_id = 1, q_text = ''Who?'', q_answered = None, q_answer = None\<rparr>,
                      \<lparr>q_id = 2, q_text = ''When?'', q_answered = None, q_answer = None\<rparr>],
         currentAnswer = [CHR '' '', CHR 0x09]\<rparr> \<and>
   questions (submitAnswer 2
       \<lparr>questions = [\<lparr>q_id = 1, q_text = ''Who?'', q_answered = None, q_answer = None\<rparr>,
                    \<lparr>q_id = 2, q_text = ''When?'', q_answered = None, q_answer = None\<rparr>],
        currentAnswer = '' on Monday''\<rparr>) ! 1
     = \<lparr>q_id = 2, q_text = ''When?'', q_answered = Some True, q_answer = Some '' on Monday''\<rparr> \<and>
   questions (submitAnswer 2
       \<lparr>questions = [\<lparr>q_id = 1, q_text = ''Who?'', q_answered = None, q_answer = None\<rparr>,
                    \<lparr>q_id = 2, q_text = ''When?'', q_answered = None, q_answer = None\<rparr>],
        currentAnswer = '' on Monday''\<rparr>) ! 0
     = \<lparr>q_id = 1, q_text = ''Who?'', q_answered = None, q_answer = None\<rparr>"
proof -
  let ?qs = "[\<lparr>q_id = 1, q_text = ''Who?'', q_answered = None, q_answer = None\<rparr>,
              \<lparr>q_id = 2, q_text = ''When?'', q_answered = None, q_answer = None\<rparr>]"
  have blank: "\<forall>c \<in> set [CHR '' '', CHR 0x09]. isWhiteSpace c"
    by (simp add: isWhiteSpace_def)
  have typed: "\<not> (\<forall>c \<in> set '' on Monday''. isWhiteSpace c)"
    by (simp add: isWhiteSpace_def)
  from submitAnswer_frame [of "\<lparr>questions = ?qs, currentAnswer = [CHR '' '', CHR 0x09]\<rparr>" 2] blank
  have a: "submitAnswer 2 \<lparr>questions = ?qs, currentAnswer = [CHR '' '', CHR 0x09]\<rparr>
           = \<lparr>questions = ?qs, currentAnswer = [CHR '' '', CHR 0x09]\<rparr>"
    by simp
  from submitAnswer_frame [of "\<lparr>questions = ?qs, currentAnswer = '' on Monday''\<rparr>" 2] typed
  have b: "\<forall>k < 2. questions (submitAnswer 2 \<lparr>questions = ?qs, currentAnswer = '' on Monday''\<rparr>) ! k =
           (if q_id (?qs ! k) = 2
            then (?qs ! k)\<lparr>q_answered := Some True, q_answer := Some '' on Monday''\<rparr>
            else ?qs ! k)"
    by simp
  from b have b1: "questions (submitAnswer 2 \<lparr>questions = ?qs, currentAnswer = '' on Monday''\<rparr>) ! 1
      = \<lparr>q_id = 2, q_text = ''When?'', q_answered = Some True, q_answer = Some '' on Monday''\<rparr>"
    by simp
  from b have b0: "questions (submitAnswer 2 \<lparr>questions = ?qs, currentAnswer = '' on Monday''\<rparr>) ! 0
      = \<lparr>q_id = 1, q_text = ''Who?'', q_answered = None, q_answer = None\<rparr>"
    by simp
  from a b1 b0 show ?thesis by simp
qed

section \<open>Properties of the calendar grid\<close>

lemma normDay_in_range:
  "1 \<le> d \<Longrightarrow> d \<le> daysInMonth y m \<Longrightarrow>
   normDay y m d = \<lparr>fullYear = y, monthIx = m, dayOfMonth = d\<rparr>"
  by (subst normDay.simps) simp

lemma normDay_zero:
  "normDay y m 0 = \<lparr>fullYear = prevYear y m, monthIx = prevMonthIx m,
                     dayOfMonth = daysInMonth (prevYear y m) (prevMonthIx m)\<rparr>"
proof -
  have "28 \<le> daysInMonth (prevYear y m) (prevMonthIx m)"
    by (rule daysInMonth_bounds)
  then show ?thesis
    by (subst normDay.simps) (simp add: normDay_in_range prevYear_def prevMonthIx_def)
qed

lemma newDate_same_month:
  "0 \<le> m \<Longrightarrow> m \<le> 11 \<Longrightarrow> newDate y m d = normDay (constructorYear y) m d"
  by (simp add: newDate_def)

lemma newDate_prev_month:
  "0 \<le> m \<Longrightarrow> m \<le> 11 \<Longrightarrow>
   newDate y (m - 1) d = normDay (prevYear (constructorYear y) m) (prevMonthIx m) d"
proof (cases "m = 0")
  case True
  then show ?thesis by (simp add: newDate_def prevYear_def prevMonthIx_def)
next
  case False
  assume "0 \<le> m" "m \<le> 11"
  with False have "(m - 1) div 12 = 0" "(m - 1) mod 12 = m - 1" by simp_all
  with False show ?thesis by (simp add: newDate_def prevYear_def prevMonthIx_def)
qed

lemma newDate_next_month:
  "0 \<le> m \<Longrightarrow> m \<le> 11 \<Longrightarrow>
   newDate y (m + 1) d = normDay (nextYear (constructorYear y) m) (nextMonthIx m) d"
proof (cases "m = 11")
  case True
  then show ?thesis by (simp add: newDate_def nextYear_def nextMonthIx_def)
next
  case False
  assume "0 \<le> m" "m \<le> 11"
  with False have "(m + 1) div 12 = 0" "(m + 1) mod 12 = m + 1" by simp_all
  with False show ?thesis by (simp add: newDate_def nextYear_def nextMonthIx_def)
qed

lemma newDate_next_month_zero:
  assumes "0 \<le> m" "m \<le> 11"
  shows "newDate y (m + 1) 0 =
         \<lparr>fullYear = constructorYear y, monthIx = m,
          dayOfMonth = daysInMonth (constructorYear y) m\<rparr>"
proof -
  have "prevYear (nextYear (constructorYear y) m) (nextMonthIx m) = constructorYear y"
       "prevMonthIx (nextMonthIx m) = m"
    using assms by (auto simp: prevYear_def nextYear_def prevMonthIx_def nextMonthIx_def)
  then show ?thesis
    using assms by (simp add: newDate_next_month normDay_zero)
qed

lemma getDay_range: "0 \<le> getDay t" "getDay t \<le> 6"
  by (simp_all add: getDay_def) 

lemma map_normDay_in_range:
  assumes "1 \<le> a" "b \<le> daysInMonth y m"
  shows "map (normDay y m) [a .. b] =
         map (\<lambda>i. \<lparr>fullYear = y, monthIx = m, dayOfMonth = i\<rparr>) [a .. b]"
  using assms by (intro map_cong refl normDay_in_range) auto

lemma generateCalendarDays_parts:
  assumes m: "0 \<le> monthIx mo" "monthIx mo \<le> 11"
  shows "generateCalendarDays mo =
     map (\<lambda>i. \<lparr>fullYear = prevYear (constructorYear (fullYear mo)) (monthIx mo),
                monthIx = prevMonthIx (monthIx mo), dayOfMonth = i\<rparr>)
         [daysInMonth (prevYear (constructorYear (fullYear mo)) (monthIx mo))
                      (prevMonthIx (monthIx mo))
            - getDay (newDate (fullYear mo) (monthIx mo) 1) + 1 ..
          daysInMonth (prevYear (constructorYear (fullYear mo)) (monthIx mo))
                      (prevMonthIx (monthIx mo))] @
     map (\<lambda>i. \<lparr>fullYear = constructorYear (fullYear mo), monthIx = monthIx mo,
                dayOfMonth = i\<rparr>)
         [1 .. daysInMonth (constructorYear (fullYear mo)) (monthIx mo)] @
     map (\<lambda>i. \<lparr>fullYear = nextYear (constructorYear (fullYear mo)) (monthIx mo),
                monthIx = nextMonthIx (monthIx mo), dayOfMonth = i\<rparr>)
         [1 .. 42 - getDay (newDate (fullYear mo) (monthIx mo) 1)
                 - daysInMonth (constructorYear (fullYear mo)) (monthIx mo)]"
proof -
  define ya where "ya = fullYear mo"
  define y where "y = constructorYear ya"
  define mi where "mi = monthIx mo"
  define w where "w = getDay (newDate ya mi 1)"
  define L where "L = daysInMonth (prevYear y mi) (prevMonthIx mi)"
  define D where "D = daysInMonth y mi"
  have w: "0 \<le> w" "w \<le> 6" by (simp_all add: w_def getDay_range)
  have L: "28 \<le> L" "L \<le> 31" by (simp_all add: L_def daysInMonth_bounds)
  have D: "28 \<le> D" "D \<le> 31" by (simp_all add: D_def daysInMonth_bounds)
  have mi: "0 \<le> mi" "mi \<le> 11" using m by (simp_all add: mi_def)
  have prev: "dayOfMonth (newDate ya mi 0) = L"
    using mi by (simp add: newDate_same_month normDay_zero L_def y_def)
  have last: "dayOfMonth (newDate ya (mi + 1) 0) = D"
    using mi by (simp add: newDate_next_month_zero D_def y_def)
  have p1: "map (\<lambda>i. newDate ya (mi - 1) i) [L - w + 1 .. L] =
            map (\<lambda>i. \<lparr>fullYear = prevYear y mi, monthIx = prevMonthIx mi, dayOfMonth = i\<rparr>)
                [L - w + 1 .. L]"
    using mi w L map_normDay_in_range [of "L - w + 1" L "prevYear y mi" "prevMonthIx mi"]
    by (simp add: newDate_prev_month L_def y_def)
  have p2: "map (\<lambda>i. newDate ya mi i) [1 .. D] =
            map (\<lambda>i. \<lparr>fullYear = y, monthIx = mi, dayOfMonth = i\<rparr>) [1 .. D]"
    using mi map_normDay_in_range [of 1 D y mi]
    by (simp add: newDate_same_month D_def y_def)
  have len: "42 - int (length (map (\<lambda>i. newDate ya (mi - 1) i) [L - w + 1 .. L] @
                             map (\<lambda>i. newDate ya mi i) [1 .. D])) = 42 - w - D"
    using w L D by simp
  have "42 - w - D \<le> daysInMonth (nextYear y mi) (nextMonthIx mi)"
    using w D daysInMonth_bounds(1) [of "nextYear y mi" "nextMonthIx mi"] by linarith
  then have p3: "map (\<lambda>i. newDate ya (mi + 1) i) [1 .. 42 - w - D] =
            map (\<lambda>i. \<lparr>fullYear = nextYear y mi, monthIx = nextMonthIx mi, dayOfMonth = i\<rparr>)
                [1 .. 42 - w - D]"
    using mi map_normDay_in_range [of 1 "42 - w - D" "nextYear y mi" "nextMonthIx mi"]
    by (simp add: newDate_next_month y_def)
  have "generateCalendarDays mo =
          map (\<lambda>i. newDate ya (mi - 1) i) [L - w + 1 .. L] @
          map (\<lambda>i. newDate ya mi i) [1 .. D] @
          map (\<lambda>i. newDate ya (mi + 1) i) [1 .. 42 - w - D]"
    unfolding generateCalendarDays_def Let_def
    unfolding ya_def [symmetric] mi_def [symmetric] w_def [symmetric] prev last
    unfolding len by simp
  then show ?thesis
    unfolding p1 p2 p3 by (simp add: y_def ya_def mi_def w_def L_def D_def)
qed

text \<open>
  Claim C8 asks for the days of the given month, and so do the comments of the function
  (\<open>First day of the month\<close>, \<open>Add days from current month\<close>).  For January of the year
  50, a month the library page reaches with its previous-month button, the constructor
  is handed the year 50 and builds dates of 1950: both copies of the function return
  the 31 days of January 1950 (which began on a Sunday, so no day of December comes
  first) and the first 11 days of February 1950, and no day of the given month.
\<close>

theorem generateCalendarDays_year50:
  "valid_date \<lparr>fullYear = 50, monthIx = 0, dayOfMonth = 1\<rparr> \<and>
   generateCalendarDays \<lparr>fullYear = 50, monthIx = 0, dayOfMonth = 1\<rparr> =
     daysOf 1950 0 1 31 @ daysOf 1950 1 1 11 \<and>
   generateCalendarDays_library \<lparr>fullYear = 50, monthIx = 0, dayOfMonth = 1\<rparr> =
     daysOf 1950 0 1 31 @ daysOf 1950 1 1 11 \<and>
   map fullYear (generateCalendarDays \<lparr>fullYear = 50, monthIx = 0, dayOfMonth = 1\<rparr>) =
     replicate 42 1950"
proof -
  have m: "0 \<le> monthIx \<lparr>fullYear = 50, monthIx = 0, dayOfMonth = 1\<rparr>"
          "monthIx \<lparr>fullYear = 50, monthIx = 0, dayOfMonth = 1\<rparr> \<le> 11"
    by simp_all
  have v: "valid_date \<lparr>fullYear = 50, monthIx = 0, dayOfMonth = 1\<rparr>"
    by (simp add: valid_date_def daysInMonth_def)
  have f: "newDate 50 0 1 = \<lparr>fullYear = 1950, monthIx = 0, dayOfMonth = 1\<rparr>"
    by (simp add: newDate_same_month normDay_in_range daysInMonth_def constructorYear_def)
  have w: "getDay (newDate 50 0 1) = 0"
    unfolding f by (simp add: getDay_def dayNumber_def)
  have g: "generateCalendarDays \<lparr>fullYear = 50, monthIx = 0, dayOfMonth = 1\<rparr> =
             daysOf 1950 0 1 31 @ daysOf 1950 1 1 11"
    using generateCalendarDays_parts [OF m]
    by (simp add: w prevYear_def prevMonthIx_def nextYear_def nextMonthIx_def
        daysInMonth_def isLeap_def daysOf_def constructorYear_def)
  have l: "generateCalendarDays_library \<lparr>fullYear = 50, monthIx = 0, dayOfMonth = 1\<rparr> =
           generateCalendarDays \<lparr>fullYear = 50, monthIx = 0, dayOfMonth = 1\<rparr>"
    by (simp add: generateCalendarDays_library_def generateCalendarDays_def)
  have y: "map fullYear (daysOf 1950 0 1 31 @ daysOf 1950 1 1 11) = replicate 42 1950"
    by (simp add: daysOf_def comp_def map_replicate_const flip: replicate_add)
  from v g l y show ?thesis by simp
qed

section \<open>Properties of the file-list filter\<close>

lemma str_includes_iff: "str_includes s t \<longleftrightarrow> sublist t s"
proof (induction s)
  case Nil
  then show ?case by simp
next
  case (Cons c s)
  then show ?case by (simp add: sublist_Cons_right)
qed

lemma str_includes_single: "str_includes s [c] \<longleftrightarrow> c \<in> set s"
  by (induction s) auto

lemma str_split_nonempty: "str_split sep s \<noteq> []"
  by (induction s) auto

lemma str_split_join: "join_on sep (str_split sep s) = s"
proof (induction s)
  case Nil
  then show ?case by simp
next
  case (Cons c s)
  obtain h t where ht: "str_split sep s = h # t"
    using str_split_nonempty [of sep s] by (cases "str_split sep s") auto
  with Cons show ?case by (cases t) auto
qed

lemma str_split_no_sep: "f \<in> set (str_split sep s) \<Longrightarrow> sep \<notin> set f"
proof (induction s arbitrary: f)
  case Nil
  then show ?case by simp
next
  case (Cons c s)
  obtain h t where ht: "str_split sep s = h # t"
    using str_split_nonempty [of sep s] by (cases "str_split sep s") auto
  with Cons show ?case by (auto split: if_splits)
qed


lemma keepRecording_star:
  assumes "CHR ''*'' \<in> set q"
  shows "keepRecording q r \<longleftrightarrow>
         (\<forall>f \<in> set (str_split (CHR ''*'') q). f \<noteq> [] \<longrightarrow> sublist f (title r))"
proof -
  from assms have "q \<noteq> []" "str_includes q ''*''"
    by (auto simp: str_includes_single)
  then show ?thesis
    by (auto simp: keepRecording_def list_all_iff str_includes_iff)
qed

lemma keepRecording_plain:
  assumes "CHR ''*'' \<notin> set q" "CHR ''-'' \<notin> set q"
  shows "keepRecording q r \<longleftrightarrow> sublist (toLowerCase q) (toLowerCase (title r))"
proof -
  from assms have "\<not> str_includes q ''*''" "\<not> str_includes q ''-''"
    by (simp_all add: str_includes_single)
  then show ?thesis
    by (simp add: keepRecording_def str_includes_iff toLowerCase_def)
qed

lemma keep_examples:
  "keepRecording ''team'' teamMeeting" "\<not> keepRecording ''team*'' teamMeeting"
  "keepRecording ''Team*'' teamMeeting"
  by (simp_all add: keepRecording_def teamMeeting_def toLowerCase_def toLowerChar_def Let_def
      char_of_def bit_simps)

text \<open>
  C10.  A query with a \<open>*\<close> keeps exactly the recordings whose title contains every
  non-empty piece of the query between the stars, compared as written; a query with
  neither \<open>*\<close> nor \<open>-\<close> keeps exactly the recordings whose lower-cased title contains
  the lower-cased query.  So the two branches differ on letter case: \<open>team\<close> finds
  "Weekly Team Meeting" and \<open>team*\<close> does not.
\<close>

theorem filteredRecordings_star_vs_plain:
  "(CHR ''*'' \<in> set q \<longrightarrow>
      filteredRecordings q rs =
        filter (\<lambda>r. \<forall>f \<in> set (str_split (CHR ''*'') q). f \<noteq> [] \<longrightarrow> sublist f (title r)) rs) \<and>
   (CHR ''*'' \<notin> set q \<and> CHR ''-'' \<notin> set q \<longrightarrow>
      filteredRecordings q rs =
        filter (\<lambda>r. sublist (toLowerCase q) (toLowerCase (title r))) rs) \<and>
   filteredRecordings ''team'' [teamMeeting] = [teamMeeting] \<and>
   filteredRecordings ''team*'' [teamMeeting] = []"
proof (intro conjI impI)
  assume "CHR ''*'' \<in> set q"
  then show "filteredRecordings q rs =
        filter (\<lambda>r. \<forall>f \<in> set (str_split (CHR ''*'') q). f \<noteq> [] \<longrightarrow> sublist f (title r)) rs"
    unfolding filteredRecordings_def by (intro filter_cong refl keepRecording_star)
next
  assume "CHR ''*'' \<notin> set q \<and> CHR ''-'' \<notin> set q"
  then show "filteredRecordings q rs =
        filter (\<lambda>r. sublist (toLowerCase q) (toLowerCase (title r))) rs"
    unfolding filteredRecordings_def by (intro filter_cong refl keepRecording_plain) simp_all
next
  show "filteredRecordings ''team'' [teamMeeting] = [teamMeeting]"
    by (simp add: filteredRecordings_def keep_examples)
next
  show "filteredRecordings ''team*'' [teamMeeting] = []"
    by (simp add: filteredRecordings_def keep_examples)
qed

theorem filteredRecordings_star_vs_plain_witness:
  "CHR ''*'' \<in> set ''Team*Meet'' \<and>
   filteredRecordings ''Team*Meet'' [teamMeeting] = [teamMeeting] \<and>
   CHR ''*'' \<notin> set ''meet'' \<and> CHR ''-'' \<notin> set ''meet'' \<and>
   filteredRecordings ''meet'' [teamMeeting] = [teamMeeting]"
proof -
  have s: "CHR ''*'' \<in> set ''Team*Meet''" by simp
  have p: "CHR ''*'' \<notin> set ''meet'' \<and> CHR ''-'' \<notin> set ''meet''" by simp
  have t1: "sublist ''Team'' ''Weekly Team Meeting''"
    using str_includes_iff [of "''Weekly Team Meeting''" "''Team''"] by simp
  have t2: "sublist ''Meet'' ''Weekly Team Meeting''"
    using str_includes_iff [of "''Weekly Team Meeting''" "''Meet''"] by simp
  have t3: "sublist ''meet'' ''weekly team meeting''"
    using str_includes_iff [of "''weekly team meeting''" "''meet''"] by simp
  have l: "toLowerCase ''Weekly Team Meeting'' = ''weekly team meeting''"
          "toLowerCase ''meet'' = ''meet''"
    by (simp_all add: toLowerCase_def toLowerChar_def Let_def char_of_def bit_simps)
  from filteredRecordings_star_vs_plain [of "''Team*Meet''" "[teamMeeting]"] s
  have "filteredRecordings ''Team*Meet'' [teamMeeting] = [teamMeeting]"
    using t1 t2 by (simp add: teamMeeting_def)
  moreover from filteredRecordings_star_vs_plain [of "''meet''" "[teamMeeting]"] p
  have "filteredRecordings ''meet'' [teamMeeting] = [teamMeeting]"
    using t3 l by (simp add: teamMeeting_def)
  ultimately show ?thesis using s p by simp
qed

section \<open>Properties of the live transcript\<close>

lemma lt_step_prefix: "prefix (transcript st) (transcript (lt_step texts st ev))"
  by (cases ev) (simp_all add: lt_render_def lt_tick_def appendText_def split: option.splits)

lemma lt_run_prefix: "prefix (transcript st) (transcript (lt_run texts st evs))"
proof (induction evs arbitrary: st)
  case Nil
  show ?case by (simp add: lt_run_def)
next
  case (Cons ev evs)
  have "prefix (transcript st) (transcript (lt_step texts st ev))"
    by (rule lt_step_prefix)
  also have "prefix \<dots> (transcript (lt_run texts (lt_step texts st ev) evs))"
    by (rule Cons.IH)
  finally show ?case by (simp add: lt_run_def)
qed

text \<open>
  C2.  The transcript is monotonic: whatever renders and interval firings happen, and
  whatever texts are ingested, the transcript at an earlier point is a prefix of the
  transcript at every later point.
\<close>

theorem transcript_monotonic:
  "prefix (transcript (lt_run texts st evs)) (transcript (lt_run texts st (evs @ evs')))"
proof -
  have "lt_run texts st (evs @ evs') = lt_run texts (lt_run texts st evs) evs'"
    by (simp add: lt_run_def)
  then show ?thesis by (simp add: lt_run_prefix)
qed

theorem transcript_monotonic_witness:
  "prefix (transcript (lt_run demoTexts (lt_mount True) [IntervalFires True]))
          (transcript (lt_run demoTexts (lt_mount True)
             ([IntervalFires True] @
              [Render False, Render True, IntervalFires True, IntervalFires False])))"
  by (rule transcript_monotonic)

text \<open>
  Claim C3 asks that every final message is appended exactly once.  The component is
  mounted with \<open>isRecording\<close> true and left alone for seven firings of the interval;
  React calls the updater of the first firing at once and those of the later firings
  when it renders.  The second demo text is never appended, the sixth firing appends
  the word \<open>undefined\<close>, and the seventh only clears the interval.
\<close>

theorem transcript_skips_second_text:
  "transcript (lt_run demoTexts (lt_mount True)
       (IntervalFires True # replicate 5 (IntervalFires False))) =
     ''Hello and welcome to our weekly team meeting. '' @
     ''Let's start by reviewing our key metrics from the last quarter. '' @
     ''Revenue grew by 15% compared to the previous quarter, which exceeded our target of 12%. '' @
     ''Customer acquisition cost decreased by 8%, which is a positive trend. '' @
     ''Our user retention rate remained stable at 85%, but we're aiming to improve this to 90% in Q2. '' @
     ''undefined'' \<and>
   lt_run demoTexts (lt_mount True) (IntervalFires True # replicate 6 (IntervalFires False)) =
     (lt_run demoTexts (lt_mount True) (IntervalFires True # replicate 5 (IntervalFires False)))
       \<lparr>lt_interval := None\<rparr>"
  by (simp add: lt_run_def lt_mount_def lt_tick_def readText_def demoTexts_def appendText_def
        numeral_eq_Suc)

section \<open>Properties of the recorder's chunk list\<close>

lemma rp_run_Cons: "rp_run st (ev # evs) = rp_run (rp_step st ev) evs"
  by (simp add: rp_run_def)

lemma rp_run_append: "rp_run st (xs @ ys) = rp_run (rp_run st xs) ys"
  by (simp add: rp_run_def)

lemma rp_run_Nil: "rp_run st [] = st"
  by (simp add: rp_run_def)


lemma recording_phase:
  assumes "list_all quiet evs"
  shows "rp_run (st\<lparr>mediaRecorder := Some (running p g), rp_isPaused := p\<rparr>) evs =
         st\<lparr>mediaRecorder := Some (running (pausedAfter p evs) (g @ recorded p evs)),
            rp_isPaused := pausedAfter p evs\<rparr>"
  using assms
proof (induction evs arbitrary: p g)
  case Nil
  show ?case by (simp add: rp_run_Nil)
next
  case (Cons ev evs)
  from Cons.prems have q: "list_all quiet evs" and qe: "quiet ev" by simp_all
  let ?st = "st\<lparr>mediaRecorder := Some (running p g), rp_isPaused := p\<rparr>"
  show ?case
  proof (cases ev)
    case (StartRecording granted)
    with qe have "rp_step ?st ev = ?st" by (simp add: quiet_def startRecording_def)
    with Cons.IH [OF q, of p g] StartRecording show ?thesis by (simp add: rp_run_Cons)
  next
    case (Frame f)
    show ?thesis
    proof (cases p)
      case True
      with Frame have "rp_step ?st ev = ?st" by (simp add: frame_def running_def)
      with Cons.IH [OF q, of p g] Frame True show ?thesis by (simp add: rp_run_Cons)
    next
      case False
      with Frame have "rp_step ?st ev = st\<lparr>mediaRecorder := Some (running p (g @ [f])), rp_isPaused := p\<rparr>"
        by (simp add: frame_def running_def)
      with Cons.IH [OF q, of p "g @ [f]"] Frame False show ?thesis by (simp add: rp_run_Cons)
    qed
  next
    case PauseRecording
    have "rp_step ?st ev = st\<lparr>mediaRecorder := Some (running True g), rp_isPaused := True\<rparr>"
      using PauseRecording by (cases p) (simp_all add: pauseRecording_def running_def)
    with Cons.IH [OF q, of True g] PauseRecording show ?thesis by (simp add: rp_run_Cons)
  next
    case ResumeRecording
    have "rp_step ?st ev = st\<lparr>mediaRecorder := Some (running False g), rp_isPaused := False\<rparr>"
      using ResumeRecording by (cases p) (simp_all add: resumeRecording_def running_def)
    with Cons.IH [OF q, of False g] ResumeRecording show ?thesis by (simp add: rp_run_Cons)
  next
    case StopRecording
    with qe show ?thesis by (simp add: quiet_def)
  qed
qed

lemma stopped_stays:
  assumes "list_all (\<lambda>ev. ev \<noteq> StartRecording True) evs"
  shows "rp_run (stopped fs) evs = stopped fs"
  using assms
proof (induction evs)
  case Nil
  show ?case by (simp add: rp_run_Nil)
next
  case (Cons ev evs)
  then have "rp_step (stopped fs) ev = stopped fs"
    by (cases ev)
       (simp_all add: stopped_def startRecording_def frame_def pauseRecording_def
          resumeRecording_def stopRecording_def)
  with Cons show ?case by (simp add: rp_run_Cons)
qed

lemma start_then_stop:
  assumes "list_all quiet evs"
  shows "rp_run st (StartRecording True # evs @ [StopRecording]) = stopped (recorded False evs)"
proof -
  let ?s0 = "st\<lparr>audioChunks := [], rp_isRecording := True\<rparr>"
  have a: "rp_step st (StartRecording True) = ?s0\<lparr>mediaRecorder := Some (running False []), rp_isPaused := False\<rparr>"
    by (simp add: startRecording_def running_def)
  have "rp_run st (StartRecording True # evs @ [StopRecording]) =
        rp_step (rp_run (?s0\<lparr>mediaRecorder := Some (running False []), rp_isPaused := False\<rparr>) evs) StopRecording"
    by (simp only: rp_run_Cons rp_run_append a) (simp add: rp_run_def)
  also have "\<dots> = stopped (recorded False evs)"
    by (simp only: recording_phase [OF assms])
       (simp add: stopRecording_def running_def ondataavailable_def onstop_def stopped_def)
  finally show ?thesis .
qed

lemma recorded_frames: "recorded False (map Frame fs) = fs"
  by (induction fs) simp_all

text \<open>
  Claim C5, as the code has it.  The page has no bounded queue: take any state of the
  page, one granted \<open>startRecording\<close>, then any frames, pauses, resumes and refused
  starts, then \<open>stopRecording\<close>, then any events but a granted start.  The page is then
  exactly \<open>stopped fs\<close>, where \<open>fs\<close> are all the frames delivered while the recording
  was not paused, in order: the chunk list holds one chunk, \<open>fs\<close>, of whatever length,
  the final blob is \<open>fs\<close>, and it stays so until the next recording starts.  No frame
  is dropped, and the state has no component in which an overflow could be signalled.
\<close>

theorem recording_keeps_every_frame:
  assumes "list_all quiet evs"
    and "list_all (\<lambda>ev. ev \<noteq> StartRecording True) evs'"
  shows "rp_run st (StartRecording True # evs @ StopRecording # evs') = stopped (recorded False evs)"
proof -
  have "rp_run st (StartRecording True # evs @ StopRecording # evs') =
        rp_run (rp_run st (StartRecording True # evs @ [StopRecording])) evs'"
    by (simp add: rp_run_def)
  then show ?thesis by (simp add: start_then_stop [OF assms(1)] stopped_stays [OF assms(2)])
qed

theorem recording_keeps_every_frame_witness:
  "rp_run rp_init
     [StartRecording True, Frame (1::nat), PauseRecording, Frame 2, ResumeRecording, Frame 3,
      StopRecording, Frame 4, StopRecording] =
   \<lparr>rp_isRecording = False, rp_isPaused = False,
    mediaRecorder = Some \<lparr>rec_state = Inactive, gathered = [], onstop_set = True\<rparr>,
    audioChunks = [[1, 3]], audioBlob = Some [1, 3]\<rparr>"
  using recording_keeps_every_frame
    [of "[Frame (1::nat), PauseRecording, Frame 2, ResumeRecording, Frame 3]"
        "[Frame 4, StopRecording]" rp_init]
  by (simp add: quiet_def stopped_def)

text \<open>
  Claim C5 as written fails on the code.  Whatever the capacity \<open>cap\<close>, counted in audio
  frames, a recording of \<open>cap + 1\<close> frames leaves all of them in the chunk list, the
  oldest included: the held audio exceeds the capacity and nothing is dropped.
\<close>

theorem no_capacity_counterexample:
  "\<forall>cap. audioChunks (rp_run rp_init (StartRecording True # map Frame [0..<Suc cap] @ [StopRecording]))
            = [[0..<Suc cap]] \<and>
          cap < length (concat (audioChunks
                  (rp_run rp_init (StartRecording True # map Frame [0..<Suc cap] @ [StopRecording]))))"
proof
  fix cap :: nat
  have q: "list_all quiet (map Frame [0..<Suc cap])"
    by (simp add: list_all_iff quiet_def)
  show "audioChunks (rp_run rp_init (StartRecording True # map Frame [0..<Suc cap] @ [StopRecording]))
            = [[0..<Suc cap]] \<and>
          cap < length (concat (audioChunks
                  (rp_run rp_init (StartRecording True # map Frame [0..<Suc cap] @ [StopRecording]))))"
    by (simp only: start_then_stop [OF q] recorded_frames) (simp add: stopped_def)
qed

section \<open>Properties of the trigger detector\<close>

lemma sorted_fst_product:
  "sorted xs \<Longrightarrow> sorted (map fst (filter P (List.product xs ys)))"
proof (induction xs)
  case Nil
  show ?case by simp
next
  case (Cons x xs)
  then have le: "\<forall>z \<in> set xs. x \<le> z" and s: "sorted xs" by simp_all
  have a: "map fst (filter P (map (Pair x) ys)) = replicate (length (filter P (map (Pair x) ys))) x"
    by (induction ys) simp_all
  have b: "\<forall>z \<in> set (map fst (filter P (List.product xs ys))). x \<le> z"
    using le by auto
  have "sorted (replicate n x)" for n by (induction n) simp_all
  with Cons.IH [OF s] a b show ?case
    by (auto simp: sorted_append)
qed

lemma scan_offsets_sorted: "sorted (map transcript_offset (scan phrases base text))"
proof -
  have "map transcript_offset (scan phrases base text) =
        map (\<lambda>i. base + i)
            (map fst (filter (\<lambda>(i, k). matches_at (phrases ! k) text i)
                             (List.product [0 ..< length text] [0 ..< length phrases])))"
    by (simp add: scan_def case_prod_unfold comp_def)
  moreover have "sorted (map fst (filter (\<lambda>(i, k). matches_at (phrases ! k) text i)
                             (List.product [0 ..< length text] [0 ..< length phrases])))"
    by (rule sorted_fst_product) simp
  ultimately show ?thesis
    by (simp add: sorted_map sorted_wrt_iff_nth_less del: map_map)
qed

lemma scan_distinct: "distinct (scan phrases base text)"
proof -
  have "distinct (filter (\<lambda>(i, k). matches_at (phrases ! k) text i)
                 (List.product [0 ..< length text] [0 ..< length phrases]))"
    by (simp add: distinct_product)
  moreover have "inj (\<lambda>(i, k). \<lparr>trigger_id = k, matched_phrase = phrases ! k,
                                 transcript_offset = base + i\<rparr>)"
    by (auto simp: inj_on_def)
  ultimately show ?thesis
    unfolding scan_def by (auto simp: distinct_map intro: inj_on_subset)
qed

lemma scan_set:
  "set (scan phrases base text) =
     {\<lparr>trigger_id = k, matched_phrase = phrases ! k, transcript_offset = base + i\<rparr> | i k.
        i < length text \<and> k < length phrases \<and> matches_at (phrases ! k) text i}"
  by (auto simp: scan_def)

text \<open>
  C7.  \<open>scan\<close> emits exactly the events of the matches: one event for every configured
  phrase and every offset of the new text at which the phrase matches, no event twice
  and none besides; the events are in ascending order of offset.  Phrases that overlap
  or share a prefix all fire.
\<close>

theorem scan_emits_every_match:
  "set (scan phrases base text) =
     {\<lparr>trigger_id = k, matched_phrase = phrases ! k, transcript_offset = base + i\<rparr> | i k.
        i < length text \<and> k < length phrases \<and> matches_at (phrases ! k) text i} \<and>
   distinct (scan phrases base text) \<and>
   sorted (map transcript_offset (scan phrases base text))"
  by (intro conjI scan_set scan_distinct scan_offsets_sorted)

theorem scan_emits_every_match_witness:
  "scan [''[ACTION]''] 0 ''...let's mark this [ACTION] item...'' =
     [\<lparr>trigger_id = 0, matched_phrase = ''[ACTION]'', transcript_offset = 19\<rparr>] \<and>
   scan [''action'', ''action item''] 100 ''Next Action Item'' =
     [\<lparr>trigger_id = 0, matched_phrase = ''action'', transcript_offset = 105\<rparr>,
      \<lparr>trigger_id = 1, matched_phrase = ''action item'', transcript_offset = 105\<rparr>] \<and>
   distinct (scan [''action'', ''action item''] 100 ''Next Action Item'') \<and>
   sorted (map transcript_offset (scan [''action'', ''action item''] 100 ''Next Action Item''))"
proof -
  have a: "scan [''[ACTION]''] 0 ''...let's mark this [ACTION] item...'' =
     [\<lparr>trigger_id = 0, matched_phrase = ''[ACTION]'', transcript_offset = 19\<rparr>]"
    by code_simp
  have b: "scan [''action'', ''action item''] 100 ''Next Action Item'' =
     [\<lparr>trigger_id = 0, matched_phrase = ''action'', transcript_offset = 105\<rparr>,
      \<lparr>trigger_id = 1, matched_phrase = ''action item'', transcript_offset = 105\<rparr>]"
    by code_simp
  from scan_emits_every_match [of "[''action'', ''action item'']" 100 "''Next Action Item''"]
  have "distinct (scan [''action'', ''action item''] 100 ''Next Action Item'') \<and>
        sorted (map transcript_offset (scan [''action'', ''action item''] 100 ''Next Action Item''))"
    by blast
  with a b show ?thesis by blast
qed

section \<open>Properties of the reconnecting link\<close>

lemma link_run_snoc: "link_run l (evs @ [ev]) = link_step (link_run l evs) ev"
  by (simp add: link_run_def)

lemma link_run_Cons: "link_run l (ev # evs) = link_run (link_step l ev) evs"
  by (simp add: link_run_def)

lemma link_run_append: "link_run l (xs @ ys) = link_run (link_run l xs) ys"
  by (simp add: link_run_def)

lemma link_step_inv: "link_inv l \<Longrightarrow> link_inv (link_step l ev)"
  by (cases ev) (auto simp: link_inv_def)

lemma link_run_inv: "link_inv l \<Longrightarrow> link_inv (link_run l evs)"
proof (induction evs arbitrary: l)
  case Nil
  then show ?case by (simp add: link_run_def)
next
  case (Cons ev evs)
  from Cons.prems have "link_inv (link_step l ev)" by (rule link_step_inv)
  then have "link_inv (link_run (link_step l ev) evs)" by (rule Cons.IH)
  then show ?case by (simp add: link_run_def)
qed

lemma link_inv_init: "link_inv link_init"
  by (simp add: link_inv_def link_init_def)

lemma backoff_open:
  assumes "conn l = Reconnecting" "failures l + length us < maxAttempts"
  shows "conn (link_run l (map ReconnectFailed us)) = Reconnecting \<and>
         failures (link_run l (map ReconnectFailed us)) = failures l + length us \<and>
         delays (link_run l (map ReconnectFailed us)) =
           delays l @ map (\<lambda>i. nominalDelay (failures l + i) * (1 + jitterOf (us ! i)))
                        [0 ..< length us] \<and>
         surfaced (link_run l (map ReconnectFailed us)) = surfaced l"
  using assms
proof (induction us rule: rev_induct)
  case Nil
  then show ?case by (simp add: link_run_def)
next
  case (snoc u us)
  then have "failures l + length us < maxAttempts" by simp
  with snoc have IH: "conn (link_run l (map ReconnectFailed us)) = Reconnecting"
      "failures (link_run l (map ReconnectFailed us)) = failures l + length us"
      "delays (link_run l (map ReconnectFailed us)) =
           delays l @ map (\<lambda>i. nominalDelay (failures l + i) * (1 + jitterOf (us ! i)))
                        [0 ..< length us]"
      "surfaced (link_run l (map ReconnectFailed us)) = surfaced l"
    by simp_all
  from snoc.prems(2) have "\<not> maxAttempts \<le> failures l + length us + 1" by simp
  with IH show ?case
    by (simp add: link_run_snoc nth_append)
qed

lemma closed_stays:
  "conn l = Closed \<Longrightarrow> link_run l evs = l"
proof (induction evs arbitrary: l)
  case Nil
  show ?case by (simp add: link_run_def)
next
  case (Cons ev evs)
  from Cons.prems have "link_step l ev = l" by (cases ev) simp_all
  with Cons show ?case by (simp add: link_run_def)
qed

lemma nominalDelay_pos: "0 < nominalDelay n"
  by (simp add: nominalDelay_def backoffCap_def backoffBase_def backoffFactor_def)

lemma nominalDelay_values:
  "map nominalDelay [0 ..< 9] = [1, 2, 4, 8, 16, 30, 30, 30, 30]"
  by (simp add: nominalDelay_def backoffCap_def backoffBase_def backoffFactor_def upt_rec
      del: upt.simps)

lemma jitter_bounds:
  "(4 / 5) * nominalDelay i \<le> nominalDelay i * (1 + jitterOf u)"
  "nominalDelay i * (1 + jitterOf u) \<le> (6 / 5) * nominalDelay i"
proof -
  have p: "0 < nominalDelay i" by (rule nominalDelay_pos)
  have "4 / 5 \<le> 1 + jitterOf u" "1 + jitterOf u \<le> 6 / 5"
    by (simp_all add: jitterOf_def jitterBound_def)
  with p show "(4 / 5) * nominalDelay i \<le> nominalDelay i * (1 + jitterOf u)"
    and "nominalDelay i * (1 + jitterOf u) \<le> (6 / 5) * nominalDelay i"
    by (simp_all add: mult.commute)
qed

lemma outage:
  fixes l :: link and us :: "rat list"
  assumes s: "conn l = Streaming"
  defines "r \<equiv> link_run l (TransportFailure # map ReconnectFailed us)"
  shows "delays r = delays l @ map (\<lambda>i. nominalDelay i * (1 + jitterOf (us ! i)))
                              [0 ..< min 9 (length us)]"
    and "length us < 10 \<Longrightarrow> conn r = Reconnecting"
    and "length us < 10 \<Longrightarrow> failures r = length us"
    and "length us < 10 \<Longrightarrow> surfaced r = surfaced l"
    and "10 \<le> length us \<Longrightarrow> conn r = Closed"
    and "10 \<le> length us \<Longrightarrow> surfaced r = surfaced l @ [LinkLost]"
proof -
  define l0 where "l0 = l\<lparr>conn := Reconnecting, failures := 0\<rparr>"
  have c0: "conn l0 = Reconnecting" and f0: "failures l0 = 0"
    and d0: "delays l0 = delays l" and s0: "surfaced l0 = surfaced l"
    by (simp_all add: l0_def)
  have r: "r = link_run l0 (map ReconnectFailed us)"
    unfolding r_def l0_def using s by (simp add: link_run_Cons)
  have short: "conn r = Reconnecting \<and> failures r = length us \<and> surfaced r = surfaced l \<and>
     delays r = delays l @ map (\<lambda>i. nominalDelay i * (1 + jitterOf (us ! i)))
                              [0 ..< min 9 (length us)]"
    if lt: "length us < 10"
  proof -
    from lt have "failures l0 + length us < maxAttempts" by (simp add: f0 maxAttempts_def)
    moreover from lt have "min 9 (length us) = length us" by simp
    ultimately show ?thesis
      unfolding r using backoff_open [OF c0, of us] by (simp add: f0 d0 s0)
  qed
  have long: "conn r = Closed \<and> surfaced r = surfaced l @ [LinkLost] \<and>
     delays r = delays l @ map (\<lambda>i. nominalDelay i * (1 + jitterOf (us ! i)))
                              [0 ..< min 9 (length us)]"
    if ge: "10 \<le> length us"
  proof -
    define a where "a = take 9 us"
    define u where "u = us ! 9"
    define rest where "rest = drop 10 us"
    from ge have split: "us = (a @ [u]) @ rest" and la: "length a = 9"
      unfolding a_def u_def rest_def
      by (simp_all add: take_Suc_conv_app_nth [symmetric])
    have "failures l0 + length a < maxAttempts" by (simp add: f0 la maxAttempts_def)
    from backoff_open [OF c0 this]
    have o: "conn (link_run l0 (map ReconnectFailed a)) = Reconnecting"
      "failures (link_run l0 (map ReconnectFailed a)) = 9"
      "delays (link_run l0 (map ReconnectFailed a)) =
         delays l @ map (\<lambda>i. nominalDelay i * (1 + jitterOf (a ! i))) [0 ..< 9]"
      "surfaced (link_run l0 (map ReconnectFailed a)) = surfaced l"
      by (simp_all add: f0 d0 s0 la)
    define t where "t = link_run l0 (map ReconnectFailed (a @ [u]))"
    have "t = link_step (link_run l0 (map ReconnectFailed a)) (ReconnectFailed u)"
      unfolding t_def by (simp add: link_run_snoc)
    with o have t: "conn t = Closed" "surfaced t = surfaced l @ [LinkLost]"
      "delays t = delays l @ map (\<lambda>i. nominalDelay i * (1 + jitterOf (a ! i))) [0 ..< 9]"
      by (simp_all add: maxAttempts_def)
    have "r = link_run t (map ReconnectFailed rest)"
      unfolding r t_def by (subst split) (simp add: link_run_def)
    then have rt: "r = t" by (simp only: closed_stays [OF t(1)])
    have "map (\<lambda>i. nominalDelay i * (1 + jitterOf (a ! i))) [0 ..< 9] =
          map (\<lambda>i. nominalDelay i * (1 + jitterOf (us ! i))) [0 ..< 9]"
      by (rule map_cong) (simp_all add: a_def)
    moreover from ge have "min 9 (length us) = 9" by simp
    ultimately show ?thesis using t by (simp add: rt)
  qed
  show "delays r = delays l @ map (\<lambda>i. nominalDelay i * (1 + jitterOf (us ! i)))
                              [0 ..< min 9 (length us)]"
    using short long by (cases "length us < 10") simp_all
  show "length us < 10 \<Longrightarrow> conn r = Reconnecting" using short by simp
  show "length us < 10 \<Longrightarrow> failures r = length us" using short by simp
  show "length us < 10 \<Longrightarrow> surfaced r = surfaced l" using short by simp
  show "10 \<le> length us \<Longrightarrow> conn r = Closed" using long by simp
  show "10 \<le> length us \<Longrightarrow> surfaced r = surfaced l @ [LinkLost]" using long by simp
qed

text \<open>
  Claim C6.  Let the link have reached, from its initial state and by any events, a
  state \<open>l\<close> in which it is streaming, and let a transport failure be followed by a run
  of failed reconnection attempts, whatever numbers \<open>us\<close> are drawn for the jitter.

  \<^item> The delay scheduled after failure \<open>i + 1\<close> of the run, for the first nine failures,
    is the nominal delay \<open>min 30 (2 ^ i)\<close> seconds (1, 2, 4, 8, 16, 30, 30, 30, 30)
    times one plus the jitter, and so lies between four fifths and six fifths of the
    nominal delay.  The count starts afresh in every run.
  \<^item> \<open>LinkLost\<close> has not been surfaced before the run.  After fewer than ten failures
    the link is still reconnecting and has surfaced nothing new, and a successful
    attempt returns it to streaming with the count at nought.
  \<^item> The tenth failure closes the link and surfaces \<open>LinkLost\<close>, once; no delay is
    scheduled for it, and no event that follows, a further failure included, changes
    the link.
\<close>

theorem backoff_then_closed:
  fixes before :: "linkEvent list" and us :: "rat list" and after :: "linkEvent list"
  defines "l \<equiv> link_run link_init before"
  defines "r \<equiv> link_run l (TransportFailure # map ReconnectFailed us)"
  assumes "conn l = Streaming"
  shows "delays r = delays l @ map (\<lambda>i. nominalDelay i * (1 + jitterOf (us ! i)))
                              [0 ..< min 9 (length us)] \<and>
         (\<forall>i u. (4 / 5) * nominalDelay i \<le> nominalDelay i * (1 + jitterOf u) \<and>
                nominalDelay i * (1 + jitterOf u) \<le> (6 / 5) * nominalDelay i) \<and>
         map nominalDelay [0 ..< 9] = [1, 2, 4, 8, 16, 30, 30, 30, 30] \<and>
         LinkLost \<notin> set (surfaced l) \<and>
         (length us < 10 \<longrightarrow>
            conn r = Reconnecting \<and> surfaced r = surfaced l \<and>
            link_step r ReconnectSucceeded = r\<lparr>conn := Streaming, failures := 0\<rparr>) \<and>
         (10 \<le> length us \<longrightarrow>
            conn r = Closed \<and> surfaced r = surfaced l @ [LinkLost] \<and> link_run r after = r)"
proof -
  note o = outage [OF assms(3), of us, folded r_def]
  have inv: "link_inv l" unfolding l_def by (rule link_run_inv [OF link_inv_init])
  with assms(3) have nl: "LinkLost \<notin> set (surfaced l)" by (simp add: link_inv_def)
  have b: "\<forall>i u. (4 / 5) * nominalDelay i \<le> nominalDelay i * (1 + jitterOf u) \<and>
                nominalDelay i * (1 + jitterOf u) \<le> (6 / 5) * nominalDelay i"
    by (intro allI conjI jitter_bounds)
  have short: "length us < 10 \<longrightarrow>
            conn r = Reconnecting \<and> surfaced r = surfaced l \<and>
            link_step r ReconnectSucceeded = r\<lparr>conn := Streaming, failures := 0\<rparr>"
  proof
    assume lt: "length us < 10"
    from o(2) [OF lt] have "link_step r ReconnectSucceeded = r\<lparr>conn := Streaming, failures := 0\<rparr>"
      by simp
    with o(2,4) [OF lt] show "conn r = Reconnecting \<and> surfaced r = surfaced l \<and>
            link_step r ReconnectSucceeded = r\<lparr>conn := Streaming, failures := 0\<rparr>"
      by (intro conjI)
  qed
  have long: "10 \<le> length us \<longrightarrow>
            conn r = Closed \<and> surfaced r = surfaced l @ [LinkLost] \<and> link_run r after = r"
  proof
    assume ge: "10 \<le> length us"
    from o(5,6) [OF ge] closed_stays [OF o(5) [OF ge], of after]
    show "conn r = Closed \<and> surfaced r = surfaced l @ [LinkLost] \<and> link_run r after = r"
      by (intro conjI)
  qed
  from o(1) b nominalDelay_values nl short long show ?thesis by (intro conjI)
qed


theorem backoff_then_closed_witness:
  "conn (link_run link_init
      [Connect, ConnectSucceeded, TransportFailure, ReconnectFailed 0, ReconnectFailed 0,
       ReconnectSucceeded]) = Streaming \<and>
   delays (link_run (link_run link_init
      [Connect, ConnectSucceeded, TransportFailure, ReconnectFailed 0, ReconnectFailed 0,
       ReconnectSucceeded])
      (TransportFailure # map ReconnectFailed [1 / 5, - 2, 5])) = [1, 2, 6 / 5, 8 / 5, 24 / 5] \<and>
   conn (link_run (link_run link_init
      [Connect, ConnectSucceeded, TransportFailure, ReconnectFailed 0, ReconnectFailed 0,
       ReconnectSucceeded])
      (TransportFailure # map ReconnectFailed [1 / 5, - 2, 5])) = Reconnecting \<and>
   delays (link_run (link_run link_init
      [Connect, ConnectSucceeded, TransportFailure, ReconnectFailed 0, ReconnectFailed 0,
       ReconnectSucceeded])
      (TransportFailure # map ReconnectFailed [0, 0, 0, 0, 0, 0, 0, 0, 0, 0, 0])) =
     [1, 2, 1, 2, 4, 8, 16, 30, 30, 30, 30] \<and>
   conn (link_run (link_run link_init
      [Connect, ConnectSucceeded, TransportFailure, ReconnectFailed 0, ReconnectFailed 0,
       ReconnectSucceeded])
      (TransportFailure # map ReconnectFailed [0, 0, 0, 0, 0, 0, 0, 0, 0, 0, 0])) = Closed \<and>
   surfaced (link_run (link_run link_init
      [Connect, ConnectSucceeded, TransportFailure, ReconnectFailed 0, ReconnectFailed 0,
       ReconnectSucceeded])
      (TransportFailure # map ReconnectFailed [0, 0, 0, 0, 0, 0, 0, 0, 0, 0, 0])) = [LinkLost]"
proof -
  let ?b = "[Connect, ConnectSucceeded, TransportFailure, ReconnectFailed 0, ReconnectFailed 0,
             ReconnectSucceeded]"
  let ?l = "link_run link_init ?b"
  have e: "?l = \<lparr>conn = Streaming, failures = 0, delays = [1, 2], surfaced = []\<rparr>"
    by (simp add: link_run_def link_init_def maxAttempts_def nominalDelay_def backoffCap_def
          backoffBase_def backoffFactor_def jitterOf_def jitterBound_def)
  then have c: "conn ?l = Streaming" and d: "delays ?l = [1, 2]" and s: "surfaced ?l = []"
    by simp_all
  have n: "nominalDelay 0 = 1" "nominalDelay 1 = 2" "nominalDelay 2 = 4" "nominalDelay 3 = 8"
    "nominalDelay 4 = 16" "nominalDelay 5 = 30" "nominalDelay 6 = 30" "nominalDelay 7 = 30"
    "nominalDelay 8 = 30" "nominalDelay (Suc 0) = 2"
    by (simp_all add: nominalDelay_def backoffCap_def backoffBase_def backoffFactor_def)
  have j: "jitterOf (1 / 5) = 1 / 5" "jitterOf (- 2) = - (1 / 5)" "jitterOf 5 = 1 / 5"
    "jitterOf 0 = 0"
    by (simp_all add: jitterOf_def jitterBound_def)
  note t1 = backoff_then_closed
      [where before = ?b and us = "[1 / 5, - 2, 5]" and after = "[]", OF c]
  note t2 = backoff_then_closed
      [where before = ?b and us = "[0, 0, 0, 0, 0, 0, 0, 0, 0, 0, 0]" and after = "[]", OF c]
  have u1: "[0 ..< min 9 (length [1 / 5, - 2, 5 :: rat])] = [0, 1, 2]"
    by (simp add: upt_rec)
  have u2: "[0 ..< min 9 (length [0, 0, 0, 0, 0, 0, 0, 0, 0, 0, 0 :: rat])] =
            [0, 1, 2, 3, 4, 5, 6, 7, 8]"
    by (simp add: upt_rec)
  have a1: "delays (link_run ?l (TransportFailure # map ReconnectFailed [1 / 5, - 2, 5])) =
             [1, 2, 6 / 5, 8 / 5, 24 / 5]"
    using t1 [THEN conjunct1] unfolding u1 d by (simp add: n j)
  have a2: "conn (link_run ?l (TransportFailure # map ReconnectFailed [1 / 5, - 2, 5])) =
             Reconnecting"
    using t1 [THEN conjunct2, THEN conjunct2, THEN conjunct2, THEN conjunct2, THEN conjunct1]
    by simp
  note long = t2 [THEN conjunct2, THEN conjunct2, THEN conjunct2, THEN conjunct2, THEN conjunct2]
  have b1: "delays (link_run ?l (TransportFailure #
                     map ReconnectFailed [0, 0, 0, 0, 0, 0, 0, 0, 0, 0, 0])) =
             [1, 2, 1, 2, 4, 8, 16, 30, 30, 30, 30]"
    using t2 [THEN conjunct1] unfolding u2 d by (simp add: n j)
  have b2: "conn (link_run ?l (TransportFailure #
                     map ReconnectFailed [0, 0, 0, 0, 0, 0, 0, 0, 0, 0, 0])) = Closed"
    using long by simp
  have b3: "surfaced (link_run ?l (TransportFailure #
                     map ReconnectFailed [0, 0, 0, 0, 0, 0, 0, 0, 0, 0, 0])) = [LinkLost]"
    using long unfolding s by simp
  from c a1 a2 b1 b2 b3 show ?thesis by (intro conjI)
qed

section \<open>Properties of the analysis scheduler\<close>


























end
